theory Spec2Isabelle
  imports Main "HOL-Library.Word" "HOL-Library.Sublist"
begin

section \<open>JavaScript values used by the todo store\<close>

text \<open>
  A JavaScript string is a sequence of 16-bit code units. \<open>str\<close> embeds an ASCII
  literal of this theory into that type.
\<close>

type_synonym jsstring = "16 word list"

definition str :: "string \<Rightarrow> jsstring" where
  "str s = map (\<lambda>c. word_of_nat (of_char c)) s"

text \<open>
  The values \<open>JSON.parse\<close> can return. A number is \<open>JNum n\<close> when it is an
  integer that a Number holds exactly; every other numeric literal is kept as
  \<open>JDouble lit\<close>, the Number that the literal \<open>lit\<close> denotes, left uninterpreted
  (no floating-point arithmetic is modelled). An object is the list of its own
  properties in enumeration order, with distinct keys.
\<close>

datatype json =
    JNull
  | JBool bool
  | JNum int
  | JDouble jsstring
  | JStr jsstring
  | JArr "json list"
  | JObj "(jsstring \<times> json) list"

subsection \<open>String.prototype.trim\<close>

text \<open>
  \<open>trim\<close> removes the code units that ECMAScript classifies as WhiteSpace or
  LineTerminator from both ends: TAB, LF, VT, FF, CR, SPACE, NBSP, U+1680,
  U+2000..U+200A, U+2028, U+2029, U+202F, U+205F, U+3000 and U+FEFF.
\<close>

definition is_trim_ws :: "16 word \<Rightarrow> bool" where
  "is_trim_ws c \<longleftrightarrow>
     c = 0x09 \<or> c = 0x0A \<or> c = 0x0B \<or> c = 0x0C \<or> c = 0x0D \<or> c = 0x20 \<or> c = 0xA0 \<or>
     c = 0x1680 \<or> (0x2000 \<le> c \<and> c \<le> 0x200A) \<or> c = 0x2028 \<or> c = 0x2029 \<or>
     c = 0x202F \<or> c = 0x205F \<or> c = 0x3000 \<or> c = 0xFEFF"

definition trim :: "jsstring \<Rightarrow> jsstring" where
  "trim s = rev (dropWhile is_trim_ws (rev (dropWhile is_trim_ws s)))"

subsection \<open>Number.prototype.toString(radix) on integers\<close>

function radix_digits :: "nat \<Rightarrow> nat \<Rightarrow> nat list" where
  "radix_digits b n = (if b < 2 \<or> n < b then [n] else radix_digits b (n div b) @ [n mod b])"
  by pat_completeness auto
termination
  by (relation "measure (\<lambda>(b, n). n)") auto

declare radix_digits.simps [simp del]

definition digit_char :: "nat \<Rightarrow> 16 word" where
  "digit_char d = (if d < 10 then word_of_nat (48 + d) else word_of_nat (97 + (d - 10)))"

definition number_toString :: "nat \<Rightarrow> int \<Rightarrow> jsstring" where
  "number_toString radix n =
     (if n < 0 then 0x2D # map digit_char (radix_digits radix (nat (- n)))
      else map digit_char (radix_digits radix (nat n)))"

section \<open>The todo store (useTodos)\<close>

text \<open>The typedef \<open>Todo\<close> of App.js: \<open>{ id, title, completed, createdAt }\<close>.\<close>

record todo =
  id_todo :: jsstring
  title :: jsstring
  completed :: bool
  createdAt :: int

text \<open>
  What the platform hands to one call of \<open>addTodo\<close>: the value of \<open>Date.now()\<close>
  read inside \<open>uid\<close>, the text \<open>Math.random().toString(36)\<close>, and the value of
  \<open>Date.now()\<close> read for \<open>createdAt\<close>.
\<close>

record env =
  now_uid :: int
  random36 :: jsstring
  now_created :: int

text \<open>
  \<open>uid = () => `${Date.now().toString(36)}-${Math.random().toString(36).slice(2, 8)}`\<close>;
  \<open>s.slice(2, 8)\<close> is the code units of \<open>s\<close> at the indices 2 to 7 that exist.
\<close>

definition slice :: "nat \<Rightarrow> nat \<Rightarrow> jsstring \<Rightarrow> jsstring" where
  "slice i j s = take (j - i) (drop i s)"

definition uid :: "env \<Rightarrow> jsstring" where
  "uid e = number_toString 36 (now_uid e) @ str ''-'' @ slice 2 8 (random36 e)"

text \<open>
  The two state cells of the hook. The filter cell holds whatever value it was
  given: the code compares it with \<open>===\<close> against two string literals only.
  The values are those of \<open>json\<close>: what storage can restore and what the three
  filter buttons pass (a function, which a state setter would call instead of
  storing it, is not such a value).
\<close>

record store =
  todos :: "todo list"
  filter_st :: json

text \<open>
  \<open>addTodo\<close>: \<open>String(title || '').trim()\<close>, nothing done when the result is
  empty, else the new record is put in front.
\<close>

definition addTodo :: "env \<Rightarrow> jsstring \<Rightarrow> store \<Rightarrow> store" where
  "addTodo e ttl s =
     (let trimmed = trim (if ttl = [] then [] else ttl) in
      if trimmed = [] then s
      else s\<lparr>todos :=
             \<lparr>id_todo = uid e, title = trimmed, completed = False, createdAt = now_created e\<rparr>
             # todos s\<rparr>)"

definition toggleTodo :: "jsstring \<Rightarrow> store \<Rightarrow> store" where
  "toggleTodo i s =
     s\<lparr>todos := map (\<lambda>t. if id_todo t = i then t\<lparr>completed := \<not> completed t\<rparr> else t) (todos s)\<rparr>"

definition deleteTodo :: "jsstring \<Rightarrow> store \<Rightarrow> store" where
  "deleteTodo i s = s\<lparr>todos := filter (\<lambda>t. id_todo t \<noteq> i) (todos s)\<rparr>"

definition clearCompleted :: "store \<Rightarrow> store" where
  "clearCompleted s = s\<lparr>todos := filter (\<lambda>t. \<not> completed t) (todos s)\<rparr>"

definition setFilter :: "json \<Rightarrow> store \<Rightarrow> store" where
  "setFilter v s = s\<lparr>filter_st := v\<rparr>"

definition filtered :: "store \<Rightarrow> todo list" where
  "filtered s =
     (if filter_st s = JStr (str ''active'') then filter (\<lambda>t. \<not> completed t) (todos s)
      else if filter_st s = JStr (str ''completed'') then filter (\<lambda>t. completed t) (todos s)
      else todos s)"

record counts_rec =
  total :: int
  active :: int
  completed_n :: int

definition counts :: "store \<Rightarrow> counts_rec" where
  "counts s =
     (let active = int (length (filter (\<lambda>t. \<not> completed t) (todos s)));
          completed = int (length (todos s)) - active
      in \<lparr>total = int (length (todos s)), active = active, completed_n = completed\<rparr>)"

text \<open>
  The interface that \<open>useTodos\<close> returns, as actions on the store: five
  operations that set a state cell and two derived values that are only read.
\<close>

datatype action =
    AddTodo env jsstring
  | ToggleTodo jsstring
  | DeleteTodo jsstring
  | ClearCompleted
  | SetFilter json
  | ReadFiltered
  | ReadCounts

datatype response = Done | Tasks "todo list" | Counts counts_rec

fun perform :: "action \<Rightarrow> store \<Rightarrow> response \<times> store" where
  "perform (AddTodo e ttl) s = (Done, addTodo e ttl s)"
| "perform (ToggleTodo i) s = (Done, toggleTodo i s)"
| "perform (DeleteTodo i) s = (Done, deleteTodo i s)"
| "perform ClearCompleted s = (Done, clearCompleted s)"
| "perform (SetFilter v) s = (Done, setFilter v s)"
| "perform ReadFiltered s = (Tasks (filtered s), s)"
| "perform ReadCounts s = (Counts (counts s), s)"

text \<open>
  The three filters of the specification, with the value each one is stored as
  and the tasks it is said to select. These follow the specification's words
  and are compared with \<open>filtered\<close> below.
\<close>

datatype filter_name = All | Active | Completed

fun filter_value :: "filter_name \<Rightarrow> json" where
  "filter_value All = JStr (str ''all'')"
| "filter_value Active = JStr (str ''active'')"
| "filter_value Completed = JStr (str ''completed'')"

fun matches :: "filter_name \<Rightarrow> todo \<Rightarrow> bool" where
  "matches All t = True"
| "matches Active t = (\<not> completed t)"
| "matches Completed t = completed t"

text \<open>Concrete data for the scenarios of the specification.\<close>

definition task_A :: todo where
  "task_A = \<lparr>id_todo = str ''a1'', title = str ''A'', completed = True, createdAt = 1700000000000\<rparr>"

definition task_B :: todo where
  "task_B = \<lparr>id_todo = str ''b2'', title = str ''B'', completed = False, createdAt = 1700000000001\<rparr>"

definition store_AB :: store where
  "store_AB = \<lparr>todos = [task_A, task_B], filter_st = JStr (str ''all'')\<rparr>"

definition empty_store :: store where
  "empty_store = \<lparr>todos = [], filter_st = JStr (str ''all'')\<rparr>"

text \<open>
  Two calls of \<open>addTodo\<close> within the same millisecond whose random numbers
  agree on their first six base-36 digits.
\<close>

definition env_1 :: env where
  "env_1 = \<lparr>now_uid = 1700000000000, random36 = str ''0.4fzyo8k2m11'',
            now_created = 1700000000000\<rparr>"

definition env_2 :: env where
  "env_2 = \<lparr>now_uid = 1700000000000, random36 = str ''0.4fzyo8x7q0w'',
            now_created = 1700000000000\<rparr>"




section \<open>Persistence: JSON text and localStorage\<close>

subsection \<open>JSON.stringify on the task list\<close>

text \<open>
  QuoteJSONString: the seven code units of the escape table get their two-unit
  escape, any other code unit below U+0020 and any surrogate that is not part
  of a pair is written as a \<open>u\<close> escape with four lower-case hexadecimal digits,
  and everything else (surrogate pairs included) is copied.
\<close>

definition is_high_surrogate :: "16 word \<Rightarrow> bool" where
  "is_high_surrogate c \<longleftrightarrow> 0xD800 \<le> c \<and> c \<le> 0xDBFF"

definition is_low_surrogate :: "16 word \<Rightarrow> bool" where
  "is_low_surrogate c \<longleftrightarrow> 0xDC00 \<le> c \<and> c \<le> 0xDFFF"

definition unicode_escape :: "16 word \<Rightarrow> jsstring" where
  "unicode_escape c =
     (let n = unat c
      in [0x5C, 0x75, digit_char (n div 4096), digit_char (n div 256 mod 16),
          digit_char (n div 16 mod 16), digit_char (n mod 16)])"

definition quote_unit :: "16 word \<Rightarrow> jsstring" where
  "quote_unit c =
     (if c = 0x08 then [0x5C, 0x62]
      else if c = 0x09 then [0x5C, 0x74]
      else if c = 0x0A then [0x5C, 0x6E]
      else if c = 0x0C then [0x5C, 0x66]
      else if c = 0x0D then [0x5C, 0x72]
      else if c = 0x22 then [0x5C, 0x22]
      else if c = 0x5C then [0x5C, 0x5C]
      else if c < 0x20 \<or> is_high_surrogate c \<or> is_low_surrogate c then unicode_escape c
      else [c])"

fun quote_body :: "jsstring \<Rightarrow> jsstring" where
  "quote_body [] = []"
| "quote_body [c] = quote_unit c"
| "quote_body (c # d # cs) =
     (if is_high_surrogate c \<and> is_low_surrogate d then c # d # quote_body cs
      else quote_unit c @ quote_body (d # cs))"

definition QuoteJSONString :: "jsstring \<Rightarrow> jsstring" where
  "QuoteJSONString s = 0x22 # quote_body s @ [0x22]"

text \<open>
  SerializeJSONObject on a \<open>Todo\<close>, whose own properties are \<open>id\<close>, \<open>title\<close>,
  \<open>completed\<close> and \<open>createdAt\<close> in this order, and SerializeJSONArray on the
  list, both without indentation. The timestamp is an integral Number, which
  Number::toString writes in decimal digits (below 10^21 in magnitude).
\<close>

definition stringify_todo :: "todo \<Rightarrow> jsstring" where
  "stringify_todo t =
     str ''{'' @ QuoteJSONString (str ''id'') @ str '':'' @ QuoteJSONString (id_todo t)
     @ str '','' @ QuoteJSONString (str ''title'') @ str '':'' @ QuoteJSONString (title t)
     @ str '','' @ QuoteJSONString (str ''completed'') @ str '':''
       @ (if completed t then str ''true'' else str ''false'')
     @ str '','' @ QuoteJSONString (str ''createdAt'') @ str '':''
       @ number_toString 10 (createdAt t)
     @ str ''}''"

fun join_comma :: "jsstring list \<Rightarrow> jsstring" where
  "join_comma [] = []"
| "join_comma [x] = x"
| "join_comma (x # y # ys) = x @ str '','' @ join_comma (y # ys)"

definition JSON_stringify :: "todo list \<Rightarrow> jsstring" where
  "JSON_stringify ts = str ''['' @ join_comma (map stringify_todo ts) @ str '']''"

subsection \<open>JSON.parse\<close>

datatype exn = SecurityError | QuotaExceededError | SyntaxError | TypeError

datatype 'a outcome = Malformed | NoFuel | Parsed 'a

definition is_json_ws :: "16 word \<Rightarrow> bool" where
  "is_json_ws c \<longleftrightarrow> c = 0x20 \<or> c = 0x09 \<or> c = 0x0A \<or> c = 0x0D"

definition skip_ws :: "jsstring \<Rightarrow> jsstring" where
  "skip_ws s = dropWhile is_json_ws s"

definition is_digit :: "16 word \<Rightarrow> bool" where
  "is_digit c \<longleftrightarrow> 0x30 \<le> c \<and> c \<le> 0x39"

definition hex_val :: "16 word \<Rightarrow> nat option" where
  "hex_val c =
     (if 0x30 \<le> c \<and> c \<le> 0x39 then Some (unat c - 48)
      else if 0x61 \<le> c \<and> c \<le> 0x66 then Some (unat c - 87)
      else if 0x41 \<le> c \<and> c \<le> 0x46 then Some (unat c - 55)
      else None)"

definition unescape :: "16 word \<Rightarrow> 16 word option" where
  "unescape e =
     (if e = 0x22 then Some 0x22
      else if e = 0x5C then Some 0x5C
      else if e = 0x2F then Some 0x2F
      else if e = 0x62 then Some 0x08
      else if e = 0x66 then Some 0x0C
      else if e = 0x6E then Some 0x0A
      else if e = 0x72 then Some 0x0D
      else if e = 0x74 then Some 0x09
      else None)"

definition hex4 :: "16 word \<Rightarrow> 16 word \<Rightarrow> 16 word \<Rightarrow> 16 word \<Rightarrow> 16 word option" where
  "hex4 h1 h2 h3 h4 =
     (case hex_val h1 of None \<Rightarrow> None | Some a \<Rightarrow>
      case hex_val h2 of None \<Rightarrow> None | Some b \<Rightarrow>
      case hex_val h3 of None \<Rightarrow> None | Some c \<Rightarrow>
      case hex_val h4 of None \<Rightarrow> None | Some d \<Rightarrow>
        Some (word_of_nat (((a * 16 + b) * 16 + c) * 16 + d)))"

text \<open>
  The characters of a string literal after its opening quote, up to and
  including the closing quote: the decoded string and the rest of the text.
\<close>

fun parse_string_chars :: "jsstring \<Rightarrow> (jsstring \<times> jsstring) option" where
  "parse_string_chars [] = None"
| "parse_string_chars (c # cs) =
     (if c = 0x22 then Some ([], cs)
      else if c < 0x20 then None
      else if c = 0x5C then
        (case cs of
           [] \<Rightarrow> None
         | e # es \<Rightarrow>
             if e = 0x75 then
               (case es of
                  h1 # h2 # h3 # h4 # r \<Rightarrow>
                    (case hex4 h1 h2 h3 h4 of
                       None \<Rightarrow> None
                     | Some x \<Rightarrow> map_option (\<lambda>(s, r'). (x # s, r')) (parse_string_chars r))
                | _ \<Rightarrow> None)
             else
               (case unescape e of
                  None \<Rightarrow> None
                | Some x \<Rightarrow> map_option (\<lambda>(s, r'). (x # s, r')) (parse_string_chars es)))
      else map_option (\<lambda>(s, r'). (c # s, r')) (parse_string_chars cs))"

text \<open>
  A number literal: optional minus, an integer part without superfluous
  leading zero, an optional fraction and an optional exponent.
\<close>

definition digits_value :: "jsstring \<Rightarrow> nat" where
  "digits_value ds = foldl (\<lambda>a c. 10 * a + (unat c - 48)) 0 ds"

definition parse_fraction :: "jsstring \<Rightarrow> (jsstring \<times> jsstring) option" where
  "parse_fraction r =
     (case r of
        [] \<Rightarrow> Some ([], r)
      | c # cs \<Rightarrow>
          if c = 0x2E then
            (if takeWhile is_digit cs = [] then None
             else Some (c # takeWhile is_digit cs, dropWhile is_digit cs))
          else Some ([], r))"

definition parse_exponent :: "jsstring \<Rightarrow> (jsstring \<times> jsstring) option" where
  "parse_exponent r =
     (case r of
        [] \<Rightarrow> Some ([], r)
      | c # cs \<Rightarrow>
          if c = 0x65 \<or> c = 0x45 then
            (let sg = (if take 1 cs = [0x2B] \<or> take 1 cs = [0x2D] then take 1 cs else []);
                 es = drop (length sg) cs
             in if takeWhile is_digit es = [] then None
                else Some (c # sg @ takeWhile is_digit es, dropWhile is_digit es))
          else Some ([], r))"

definition parse_number :: "jsstring \<Rightarrow> (json \<times> jsstring) option" where
  "parse_number s =
     (let neg = (case s of [] \<Rightarrow> False | c # cs \<Rightarrow> c = 0x2D);
          s1 = (if neg then tl s else s);
          ds = takeWhile is_digit s1;
          r1 = dropWhile is_digit s1
      in if ds = [] then None
         else if 1 < length ds \<and> hd ds = 0x30 then None
         else
           (case parse_fraction r1 of
              None \<Rightarrow> None
            | Some (fr, r2) \<Rightarrow>
                (case parse_exponent r2 of
                   None \<Rightarrow> None
                 | Some (ex, r3) \<Rightarrow>
                     if fr = [] \<and> ex = [] \<and> \<not> (neg \<and> digits_value ds = 0)
                        \<and> digits_value ds \<le> 2 ^ 53
                     then Some (JNum (if neg then - int (digits_value ds)
                                      else int (digits_value ds)), r3)
                     else Some (JDouble (take (length s - length r3) s), r3))))"

text \<open>
  CreateDataProperty on the object under construction: a key that is already
  there keeps its place and gets the new value; a new key that is an array
  index goes among the array indices in ascending order, which come first; any
  other new key goes last.
\<close>

definition is_array_index :: "jsstring \<Rightarrow> bool" where
  "is_array_index k \<longleftrightarrow>
     k \<noteq> [] \<and> list_all is_digit k \<and> (k = [0x30] \<or> hd k \<noteq> 0x30)
     \<and> digits_value k \<le> 4294967294"

fun insert_index :: "jsstring \<Rightarrow> json \<Rightarrow> (jsstring \<times> json) list \<Rightarrow> (jsstring \<times> json) list" where
  "insert_index k v [] = [(k, v)]"
| "insert_index k v ((k', v') # ps) =
     (if is_array_index k' \<and> digits_value k' < digits_value k
      then (k', v') # insert_index k v ps
      else (k, v) # (k', v') # ps)"

definition obj_put :: "(jsstring \<times> json) list \<Rightarrow> jsstring \<Rightarrow> json \<Rightarrow> (jsstring \<times> json) list" where
  "obj_put ps k v =
     (if k \<in> fst ` set ps then map (\<lambda>(k', v'). if k' = k then (k', v) else (k', v')) ps
      else if is_array_index k then insert_index k v ps
      else ps @ [(k, v)])"

text \<open>
  The recursive descent over values. The first argument bounds the depth of the
  recursion; \<open>JSON_parse\<close> supplies more than any text can use.
\<close>

fun parse_value :: "nat \<Rightarrow> jsstring \<Rightarrow> (json \<times> jsstring) outcome"
  and parse_elements :: "nat \<Rightarrow> jsstring \<Rightarrow> (json list \<times> jsstring) outcome"
  and parse_members :: "nat \<Rightarrow> (jsstring \<times> json) list \<Rightarrow> jsstring \<Rightarrow> (json \<times> jsstring) outcome"
where
  "parse_value 0 s = NoFuel"
| "parse_value (Suc f) s =
     (case s of
        [] \<Rightarrow> Malformed
      | c # cs \<Rightarrow>
          if c = 0x7B then
            (case skip_ws cs of
               [] \<Rightarrow> Malformed
             | d # ds \<Rightarrow> if d = 0x7D then Parsed (JObj [], ds) else parse_members f [] (d # ds))
          else if c = 0x5B then
            (case skip_ws cs of
               [] \<Rightarrow> Malformed
             | d # ds \<Rightarrow>
                 if d = 0x5D then Parsed (JArr [], ds)
                 else
                   (case parse_elements f (d # ds) of
                      Parsed (vs, r) \<Rightarrow> Parsed (JArr vs, r)
                    | Malformed \<Rightarrow> Malformed
                    | NoFuel \<Rightarrow> NoFuel))
          else if c = 0x22 then
            (case parse_string_chars cs of
               None \<Rightarrow> Malformed
             | Some (x, r) \<Rightarrow> Parsed (JStr x, r))
          else if take 4 s = str ''true'' then Parsed (JBool True, drop 4 s)
          else if take 5 s = str ''false'' then Parsed (JBool False, drop 5 s)
          else if take 4 s = str ''null'' then Parsed (JNull, drop 4 s)
          else
            (case parse_number s of
               None \<Rightarrow> Malformed
             | Some (v, r) \<Rightarrow> Parsed (v, r)))"
| "parse_elements 0 s = NoFuel"
| "parse_elements (Suc f) s =
     (case parse_value f s of
        Parsed (v, r) \<Rightarrow>
          (case skip_ws r of
             [] \<Rightarrow> Malformed
           | c # cs \<Rightarrow>
               if c = 0x2C then
                 (case parse_elements f (skip_ws cs) of
                    Parsed (vs, r') \<Rightarrow> Parsed (v # vs, r')
                  | Malformed \<Rightarrow> Malformed
                  | NoFuel \<Rightarrow> NoFuel)
               else if c = 0x5D then Parsed ([v], cs)
               else Malformed)
      | Malformed \<Rightarrow> Malformed
      | NoFuel \<Rightarrow> NoFuel)"
| "parse_members 0 acc s = NoFuel"
| "parse_members (Suc f) acc s =
     (case s of
        [] \<Rightarrow> Malformed
      | q # cs \<Rightarrow>
          if q = 0x22 then
            (case parse_string_chars cs of
               None \<Rightarrow> Malformed
             | Some (k, r) \<Rightarrow>
                 (case skip_ws r of
                    [] \<Rightarrow> Malformed
                  | c # r1 \<Rightarrow>
                      if c = 0x3A then
                        (case parse_value f (skip_ws r1) of
                           Parsed (v, r2) \<Rightarrow>
                             (case skip_ws r2 of
                                [] \<Rightarrow> Malformed
                              | d # r3 \<Rightarrow>
                                  if d = 0x2C then parse_members f (obj_put acc k v) (skip_ws r3)
                                  else if d = 0x7D then Parsed (JObj (obj_put acc k v), r3)
                                  else Malformed)
                         | Malformed \<Rightarrow> Malformed
                         | NoFuel \<Rightarrow> NoFuel)
                      else Malformed))
          else Malformed)"

text \<open>
  \<open>JSON.parse(text)\<close>: one value between optional white space, or a SyntaxError.
\<close>

definition JSON_parse :: "jsstring \<Rightarrow> exn + json" where
  "JSON_parse s =
     (case parse_value (2 * length s + 2) (skip_ws s) of
        Parsed (v, r) \<Rightarrow> if skip_ws r = [] then Inr v else Inl SyntaxError
      | Malformed \<Rightarrow> Inl SyntaxError
      | NoFuel \<Rightarrow> Inl SyntaxError)"

text \<open>
  The value that \<open>JSON.parse\<close> builds for the text of one \<open>Todo\<close>, and for the
  text of the task list.
\<close>

definition todo_js :: "todo \<Rightarrow> json" where
  "todo_js t =
     JObj [(str ''id'', JStr (id_todo t)), (str ''title'', JStr (title t)),
           (str ''completed'', JBool (completed t)), (str ''createdAt'', JNum (createdAt t))]"

definition todos_js :: "todo list \<Rightarrow> json" where
  "todos_js ts = JArr (map todo_js ts)"

subsection \<open>localStorage, loadStorage and saveStorage\<close>

text \<open>
  The browser's storage: the stored items, whether reading it succeeds (access
  to \<open>localStorage\<close> can throw) and whether writing succeeds (\<open>setItem\<close> throws
  when the quota is exceeded).
\<close>

record local_storage =
  items :: "jsstring \<rightharpoonup> jsstring"
  readable :: bool
  writable :: bool

definition getItem :: "local_storage \<Rightarrow> jsstring \<Rightarrow> exn + jsstring option" where
  "getItem ls key = (if readable ls then Inr (items ls key) else Inl SecurityError)"

definition setItem :: "local_storage \<Rightarrow> jsstring \<Rightarrow> jsstring \<Rightarrow> exn + local_storage" where
  "setItem ls key v =
     (if writable ls then Inr (ls\<lparr>items := (items ls)(key \<mapsto> v)\<rparr>) else Inl QuotaExceededError)"

definition try_catch :: "exn + 'a \<Rightarrow> (exn \<Rightarrow> exn + 'a) \<Rightarrow> exn + 'a" where
  "try_catch body handler = (case body of Inl e \<Rightarrow> handler e | Inr v \<Rightarrow> Inr v)"

text \<open>
  \<open>loadStorage\<close>: \<open>!raw\<close> holds for \<open>null\<close> (no item) and for the empty string.
  \<open>saveStorage\<close> is modelled for the call that writes the task list; both
  functions catch every exception, which \<open>try_catch\<close> renders.
\<close>

definition loadStorage :: "local_storage \<Rightarrow> jsstring \<Rightarrow> json \<Rightarrow> exn + json" where
  "loadStorage ls key fallback =
     try_catch
       (case getItem ls key of
          Inl e \<Rightarrow> Inl e
        | Inr raw \<Rightarrow>
            (case raw of
               None \<Rightarrow> Inr fallback
             | Some text \<Rightarrow> if text = [] then Inr fallback else JSON_parse text))
       (\<lambda>e. Inr fallback)"

definition saveStorage :: "local_storage \<Rightarrow> jsstring \<Rightarrow> todo list \<Rightarrow> exn + local_storage" where
  "saveStorage ls key data =
     try_catch (setItem ls key (JSON_stringify data)) (\<lambda>e. Inr ls)"

definition STORAGE_KEY :: jsstring where
  "STORAGE_KEY = str ''todo_app_items_v1''"

definition STORAGE_FILTER_KEY :: jsstring where
  "STORAGE_FILTER_KEY = str ''todo_app_filter_v1''"

definition DEFAULT_FILTER :: json where
  "DEFAULT_FILTER = JStr (str ''all'')"

text \<open>
  The initial values of the two state cells of \<open>useTodos\<close>, as the two
  \<open>useState\<close> initialisers compute them.
\<close>

definition useTodos_init :: "local_storage \<Rightarrow> exn + json \<times> json" where
  "useTodos_init ls =
     (case loadStorage ls STORAGE_KEY (JArr []) of
        Inl e \<Rightarrow> Inl e
      | Inr t \<Rightarrow>
          (case loadStorage ls STORAGE_FILTER_KEY DEFAULT_FILTER of
             Inl e \<Rightarrow> Inl e
           | Inr f \<Rightarrow> Inr (t, f)))"

text \<open>
  The rest of the first call of \<open>useTodos\<close>: the derived values \<open>filtered\<close> and
  \<open>counts\<close> are computed from the two initial values. \<open>counts\<close> calls
  \<open>todos.filter(t => !t.completed)\<close> whatever the filter is, and \<open>filtered\<close>
  calls \<open>todos.filter\<close> under the filters \<open>active\<close> and \<open>completed\<close>. On a
  restored value the call of \<open>filter\<close> is a TypeError unless the value is an
  array, and the read of \<open>completed\<close> is a TypeError on an element that is
  \<open>null\<close>; nothing else in the two callbacks can raise.
\<close>

definition filter_raises :: "json \<Rightarrow> exn option" where
  "filter_raises v =
     (case v of
        JArr vs \<Rightarrow> if JNull \<in> set vs then Some TypeError else None
      | _ \<Rightarrow> Some TypeError)"

definition useTodos_first_call :: "local_storage \<Rightarrow> exn + json \<times> json" where
  "useTodos_first_call ls =
     (case useTodos_init ls of
        Inl e \<Rightarrow> Inl e
      | Inr (t, f) \<Rightarrow>
          (case filter_raises t of
             Some e \<Rightarrow> Inl e
           | None \<Rightarrow> Inr (t, f)))"

text \<open>
  Storage contents for the scenarios: nothing stored, corrupt data next to a
  stored filter, and the JSON text \<open>null\<close> under the key of the task list.
\<close>

definition storage_empty :: local_storage where
  "storage_empty = \<lparr>items = Map.empty, readable = True, writable = True\<rparr>"

definition storage_corrupt :: local_storage where
  "storage_corrupt =
     \<lparr>items = [STORAGE_KEY \<mapsto> str ''{oops'', STORAGE_FILTER_KEY \<mapsto> 0x22 # str ''active'' @ [0x22]],
      readable = True, writable = True\<rparr>"

definition storage_null :: local_storage where
  "storage_null = \<lparr>items = [STORAGE_KEY \<mapsto> str ''null''], readable = True, writable = True\<rparr>"

text \<open>
  The \<open>Todo\<close> that the property reads \<open>t.id\<close>, \<open>t.title\<close>, \<open>t.completed\<close> and
  \<open>t.createdAt\<close> see in a parsed value, when each has the type of the typedef.
\<close>

definition get_prop :: "json \<Rightarrow> jsstring \<Rightarrow> json option" where
  "get_prop v k = (case v of JObj ps \<Rightarrow> map_of ps k | _ \<Rightarrow> None)"

definition as_todo :: "json \<Rightarrow> todo option" where
  "as_todo v =
     (case (get_prop v (str ''id''), get_prop v (str ''title''), get_prop v (str ''completed''),
            get_prop v (str ''createdAt'')) of
        (Some (JStr i), Some (JStr t), Some (JBool c), Some (JNum n)) \<Rightarrow>
          Some \<lparr>id_todo = i, title = t, completed = c, createdAt = n\<rparr>
      | _ \<Rightarrow> None)"

definition as_todos :: "json \<Rightarrow> todo option list" where
  "as_todos v = (case v of JArr vs \<Rightarrow> map as_todo vs | _ \<Rightarrow> [])"

text \<open>The decimal digits of a natural number, as \<open>number_toString 10\<close> writes them.\<close>

definition decimal :: "nat \<Rightarrow> jsstring" where
  "decimal n = map digit_char (radix_digits 10 n)"

section \<open>Properties of the store operations\<close>

subsection \<open>Auxiliary facts\<close>

lemma str_all_neq: "str ''all'' \<noteq> str ''active''" "str ''all'' \<noteq> str ''completed''"
  by (simp_all add: str_def)

lemma str_active_neq_completed: "str ''active'' \<noteq> str ''completed''"
  by (simp add: str_def)

lemma uid_env_1: "uid env_1 = str ''loyw3v28-4fzyo8''"
  by (simp add: uid_def env_1_def number_toString_def digit_char_def str_def slice_def
      radix_digits.simps)

lemma uid_env_2: "uid env_2 = str ''loyw3v28-4fzyo8''"
  by (simp add: uid_def env_2_def number_toString_def digit_char_def str_def slice_def
      radix_digits.simps)

lemma trim_buy_milk: "trim (str ''  Buy milk  '') = str ''Buy milk''"
  by (simp add: trim_def str_def is_trim_ws_def)

lemma trim_walk_dog: "trim (str ''Walk dog'') = str ''Walk dog''"
  by (simp add: trim_def str_def is_trim_ws_def)

lemma trim_blank: "trim (str '''') = []" "trim (str ''   '') = []"
  by (simp_all add: trim_def str_def is_trim_ws_def)

lemma str_nonempty:
  "str ''Walk dog'' \<noteq> []" "str ''Buy milk'' \<noteq> []" "str ''  Buy milk  '' \<noteq> []"
  by (simp_all add: str_def)

lemma now_created_envs:
  "now_created env_1 = 1700000000000" "now_created env_2 = 1700000000000"
  by (simp_all add: env_1_def env_2_def)

lemma trim_shape:
  "\<exists>a b. s = a @ trim s @ b \<and> list_all is_trim_ws a \<and> list_all is_trim_ws b"
proof -
  let ?m = "dropWhile is_trim_ws s"
  have "s = takeWhile is_trim_ws s @ ?m"
    by simp
  moreover have "rev ?m = takeWhile is_trim_ws (rev ?m) @ dropWhile is_trim_ws (rev ?m)"
    by simp
  then have "?m = trim s @ rev (takeWhile is_trim_ws (rev ?m))"
    unfolding trim_def by (metis rev_append rev_rev_ident)
  ultimately have "s = takeWhile is_trim_ws s @ trim s @ rev (takeWhile is_trim_ws (rev ?m))"
    by simp
  moreover have "list_all is_trim_ws (takeWhile is_trim_ws s)"
    "list_all is_trim_ws (rev (takeWhile is_trim_ws (rev ?m)))"
    by (auto simp: list_all_iff dest: set_takeWhileD)
  ultimately show ?thesis
    by blast
qed

lemma trim_ends:
  assumes "trim s \<noteq> []"
  shows "\<not> is_trim_ws (hd (trim s)) \<and> \<not> is_trim_ws (last (trim s))"
proof -
  let ?m = "dropWhile is_trim_ws s"
  let ?d = "dropWhile is_trim_ws (rev ?m)"
  from assms have d: "?d \<noteq> []"
    by (simp add: trim_def)
  then have m: "?m \<noteq> []"
    by (cases ?m) simp_all
  from d have "\<not> is_trim_ws (hd ?d)"
    by (rule hd_dropWhile)
  then have l: "\<not> is_trim_ws (last (trim s))"
    using d by (simp add: trim_def last_rev)
  from d have "last ?d = last (rev ?m)"
    by (metis append_is_Nil_conv last_appendR takeWhile_dropWhile_id)
  also have "\<dots> = hd ?m"
    using m by (simp add: last_rev)
  finally have "hd (trim s) = hd ?m"
    using d by (simp add: trim_def hd_rev)
  moreover from m have "\<not> is_trim_ws (hd ?m)"
    by (rule hd_dropWhile)
  ultimately show ?thesis
    using l by simp
qed



subsection \<open>Adding a task\<close>

text \<open>
  C1 (as the code has it): \<open>addTodo\<close> trims the title: the trimmed text is the
  title without the white space at its two ends. When the trimmed text is
  empty the store is returned as it was. Otherwise exactly one task is put in
  front of the unchanged list, with the trimmed text as title, \<open>completed\<close>
  false, the timestamp read from the clock, and the id that \<open>uid\<close> builds from the
  clock and the random number; that id is not compared with the ids of the
  list, so it is new to the list exactly when \<open>uid\<close> happens to return a text
  that no task of the list has.
\<close>

theorem addTodo_prepends:
  "(\<exists>a b. ttl = a @ trim ttl @ b \<and> list_all is_trim_ws a \<and> list_all is_trim_ws b)
   \<and> (trim ttl = [] \<longrightarrow> addTodo e ttl s = s)
   \<and> (trim ttl \<noteq> [] \<longrightarrow>
        \<not> is_trim_ws (hd (trim ttl)) \<and> \<not> is_trim_ws (last (trim ttl))
        \<and> (\<exists>t. todos (addTodo e ttl s) = t # todos s
           \<and> title t = trim ttl \<and> \<not> completed t
           \<and> id_todo t = uid e \<and> createdAt t = now_created e)
        \<and> (uid e \<notin> id_todo ` set (todos s) \<longrightarrow>
             id_todo (hd (todos (addTodo e ttl s))) \<notin> id_todo ` set (todos s)))"
  using trim_shape [of ttl] trim_ends [of ttl] by (simp add: addTodo_def Let_def)

theorem addTodo_prepends_witness:
  "addTodo env_1 (str '''') store_AB = store_AB
   \<and> addTodo env_1 (str ''   '') store_AB = store_AB
   \<and> (\<exists>t. todos (addTodo env_1 (str ''  Buy milk  '') store_AB) = t # todos store_AB
         \<and> title t = str ''Buy milk'' \<and> \<not> completed t
         \<and> id_todo t = str ''loyw3v28-4fzyo8'' \<and> createdAt t = 1700000000000)
   \<and> id_todo (hd (todos (addTodo env_1 (str ''  Buy milk  '') store_AB)))
        \<notin> id_todo ` set (todos store_AB)"
proof -
  have fresh: "uid env_1 \<notin> id_todo ` set (todos store_AB)"
    by (simp add: uid_env_1 store_AB_def task_A_def task_B_def) (simp add: str_def)
  from addTodo_prepends [of "str ''''" env_1 store_AB]
    addTodo_prepends [of "str ''   ''" env_1 store_AB]
    addTodo_prepends [of "str ''  Buy milk  ''" env_1 store_AB]
    fresh
  show ?thesis
    by (simp add: trim_blank trim_buy_milk str_nonempty uid_env_1 now_created_envs)
qed

text \<open>
  The claim C1 as stated asks for a fresh id. Here two tasks are added to the
  empty store within one millisecond, and the second one receives the id that
  the first one already has.
\<close>

theorem addTodo_id_not_fresh:
  "todos (addTodo env_2 (str ''  Buy milk  '') (addTodo env_1 (str ''Walk dog'') empty_store))
     = [\<lparr>id_todo = str ''loyw3v28-4fzyo8'', title = str ''Buy milk'', completed = False,
          createdAt = 1700000000000\<rparr>,
        \<lparr>id_todo = str ''loyw3v28-4fzyo8'', title = str ''Walk dog'', completed = False,
          createdAt = 1700000000000\<rparr>]"
  by (simp add: addTodo_def Let_def uid_env_1 uid_env_2 trim_buy_milk trim_walk_dog
      empty_store_def now_created_envs str_nonempty)

subsection \<open>Toggling and clearing\<close>

text \<open>
  C2: \<open>toggleTodo\<close> keeps the length and the order of the list and every id,
  title and timestamp; it negates \<open>completed\<close> exactly at the tasks whose id is
  the given one; applied twice with the same id it gives the store back; with an
  id that no task has it changes nothing.
\<close>

theorem toggleTodo_flips:
  "length (todos (toggleTodo i s)) = length (todos s)
   \<and> (\<forall>k < length (todos s).
        id_todo (todos (toggleTodo i s) ! k) = id_todo (todos s ! k)
      \<and> title (todos (toggleTodo i s) ! k) = title (todos s ! k)
      \<and> createdAt (todos (toggleTodo i s) ! k) = createdAt (todos s ! k)
      \<and> completed (todos (toggleTodo i s) ! k)
          = (if id_todo (todos s ! k) = i then \<not> completed (todos s ! k)
             else completed (todos s ! k)))
   \<and> toggleTodo i (toggleTodo i s) = s
   \<and> (i \<notin> id_todo ` set (todos s) \<longrightarrow> toggleTodo i s = s)"
proof -
  have twice: "toggleTodo i (toggleTodo i s) = s"
    by (simp add: toggleTodo_def o_def map_idI)
  have unknown: "toggleTodo i s = s" if "i \<notin> id_todo ` set (todos s)"
  proof -
    have "map (\<lambda>t. if id_todo t = i then t\<lparr>completed := \<not> completed t\<rparr> else t) (todos s)
          = todos s"
      using that by (intro map_idI) auto
    then show ?thesis by (simp add: toggleTodo_def)
  qed
  show ?thesis
    using twice unknown by (simp add: toggleTodo_def)
qed

theorem toggleTodo_flips_witness:
  "todos (toggleTodo (str ''a1'') store_AB) = [task_A\<lparr>completed := False\<rparr>, task_B]
   \<and> toggleTodo (str ''a1'') (toggleTodo (str ''a1'') store_AB) = store_AB
   \<and> str ''zz'' \<notin> id_todo ` set (todos store_AB)
   \<and> toggleTodo (str ''zz'') store_AB = store_AB"
proof -
  have absent: "str ''zz'' \<notin> id_todo ` set (todos store_AB)"
    by (simp add: store_AB_def task_A_def task_B_def str_def)
  have first: "todos (toggleTodo (str ''a1'') store_AB) = [task_A\<lparr>completed := False\<rparr>, task_B]"
    by (simp add: toggleTodo_def store_AB_def task_A_def task_B_def str_def)
  from toggleTodo_flips [of "str ''a1''" store_AB] toggleTodo_flips [of "str ''zz''" store_AB]
    absent first
  show ?thesis by blast
qed

text \<open>
  C3: \<open>clearCompleted\<close> keeps no completed task, keeps every task that is not
  completed as often as it occurs, and what it keeps is a subsequence of the
  list (unchanged tasks in their old relative order). From a completed task
  followed by an active one it leaves the active one, with counts 1, 1, 0.
\<close>

theorem clearCompleted_exact:
  "(\<forall>t \<in> set (todos (clearCompleted s)). \<not> completed t)
   \<and> subseq (todos (clearCompleted s)) (todos s)
   \<and> (\<forall>t. \<not> completed t \<longrightarrow> count_list (todos (clearCompleted s)) t = count_list (todos s) t)
   \<and> todos (clearCompleted (s\<lparr>todos := [a\<lparr>completed := True\<rparr>, b\<lparr>completed := False\<rparr>]\<rparr>))
       = [b\<lparr>completed := False\<rparr>]
   \<and> counts (clearCompleted (s\<lparr>todos := [a\<lparr>completed := True\<rparr>, b\<lparr>completed := False\<rparr>]\<rparr>))
       = \<lparr>total = 1, active = 1, completed_n = 0\<rparr>"
proof -
  have keep: "count_list (filter (\<lambda>t. \<not> completed t) xs) t = count_list xs t"
    if "\<not> completed t" for xs :: "todo list" and t
    using that by (induction xs) auto
  show ?thesis
    using keep by (simp add: clearCompleted_def counts_def)
qed

theorem clearCompleted_exact_witness:
  "todos (clearCompleted store_AB) = [task_B]
   \<and> counts (clearCompleted store_AB) = \<lparr>total = 1, active = 1, completed_n = 0\<rparr>
   \<and> \<not> completed task_B
   \<and> count_list (todos (clearCompleted store_AB)) task_B = count_list (todos store_AB) task_B"
proof -
  have "\<not> completed task_B"
    by (simp add: task_B_def)
  with clearCompleted_exact [of store_AB task_A task_B] show ?thesis
    by (simp add: store_AB_def task_A_def task_B_def)
qed

subsection \<open>Counts and the filtered view\<close>

text \<open>
  C4: for a list of N tasks of which K are completed, \<open>counts\<close> gives total N,
  active N - K and completed K, so active + completed = total = N; reading the
  counts leaves the store as it was.
\<close>

theorem counts_correct:
  "total (counts s) = int (length (todos s))
   \<and> completed_n (counts s) = int (length (filter completed (todos s)))
   \<and> active (counts s) = int (length (todos s)) - int (length (filter completed (todos s)))
   \<and> active (counts s) + completed_n (counts s) = total (counts s)
   \<and> perform ReadCounts s = (Counts (counts s), s)"
proof -
  have "length (filter completed (todos s)) + length (filter (\<lambda>t. \<not> completed t) (todos s))
        = length (todos s)"
    by (rule sum_length_filter_compl)
  then show ?thesis
    by (simp add: counts_def Let_def)
qed

text \<open>
  C5: under each of the three filters \<open>filtered\<close> is the task list restricted to
  the tasks that the filter selects, in the order of the list; it is empty for
  the empty list, also after the only task has been deleted; reading it leaves
  the store as it was.
\<close>

theorem filtered_matches:
  "filtered (s\<lparr>filter_st := filter_value f\<rparr>) = filter (matches f) (todos s)
   \<and> filtered (s\<lparr>todos := [], filter_st := filter_value f\<rparr>) = []
   \<and> filtered ((deleteTodo (id_todo t) (s\<lparr>todos := [t]\<rparr>))\<lparr>filter_st := filter_value f\<rparr>) = []
   \<and> perform ReadFiltered s = (Tasks (filtered s), s)"
  using str_active_neq_completed str_all_neq
  by (cases f) (auto simp: filtered_def deleteTodo_def intro: filter_cong)

text \<open>
  C9: \<open>setFilter\<close> stores the value it is given, whatever it is, and touches
  nothing else; under every value other than the strings \<open>active\<close> and
  \<open>completed\<close> the filtered view is the whole task list, as under \<open>all\<close>.
\<close>

theorem setFilter_any_value:
  "filter_st (setFilter v s) = v
   \<and> todos (setFilter v s) = todos s
   \<and> (v \<noteq> JStr (str ''active'') \<longrightarrow> v \<noteq> JStr (str ''completed'') \<longrightarrow>
        filtered (setFilter v s) = todos s
        \<and> filtered (setFilter v s) = filtered (setFilter (JStr (str ''all'')) s))"
  using str_all_neq by (simp add: setFilter_def filtered_def)

theorem setFilter_any_value_witness:
  "filtered (setFilter (JStr (str ''archived'')) store_AB) = [task_A, task_B]
   \<and> filtered (setFilter (JNum 7) store_AB) = [task_A, task_B]
   \<and> filtered (setFilter JNull store_AB) = filtered (setFilter (JStr (str ''all'')) store_AB)"
proof -
  have l: "todos store_AB = [task_A, task_B]"
    by (simp add: store_AB_def)
  have "str ''archived'' \<noteq> str ''active''" "str ''archived'' \<noteq> str ''completed''"
    by (simp_all add: str_def)
  with setFilter_any_value [of "JStr (str ''archived'')" store_AB]
    setFilter_any_value [of "JNum 7" store_AB] setFilter_any_value [of JNull store_AB]
  show ?thesis
    unfolding l [symmetric] by blast
qed

subsection \<open>Identifiers\<close>




subsection \<open>Independence of the two state cells\<close>

text \<open>
  C10: the four list operations leave the filter as it was, \<open>setFilter\<close> leaves
  the task list as it was, and reading \<open>filtered\<close> or \<open>counts\<close> returns the
  store it was given.
\<close>

theorem list_and_filter_independent:
  "filter_st (addTodo e ttl s) = filter_st s
   \<and> filter_st (toggleTodo i s) = filter_st s
   \<and> filter_st (deleteTodo i s) = filter_st s
   \<and> filter_st (clearCompleted s) = filter_st s
   \<and> todos (setFilter v s) = todos s
   \<and> snd (perform ReadFiltered s) = s
   \<and> snd (perform ReadCounts s) = s"
  by (simp add: addTodo_def Let_def toggleTodo_def deleteTodo_def clearCompleted_def
      setFilter_def)

section \<open>Properties of persistence\<close>

subsection \<open>String literals\<close>

lemma unat_digit_char:
  "d < 36 \<Longrightarrow> unat (digit_char d) = (if d < 10 then 48 + d else 87 + d)"
  by (simp add: digit_char_def unat_of_nat del: of_nat_add)

lemma hex_val_digit_char: "d < 16 \<Longrightarrow> hex_val (digit_char d) = Some d"
  by (simp add: hex_val_def word_le_nat_alt unat_digit_char)

lemma hex_digits_value:
  "((n div 4096 * 16 + n div 256 mod 16) * 16 + n div 16 mod 16) * 16 + n mod 16 = (n::nat)"
proof -
  have "n div 4096 = n div 256 div 16" "n div 256 = n div 16 div 16"
    using div_mult2_eq [of n 256 16] div_mult2_eq [of n 16 16] by simp_all
  then have a: "n div 4096 * 16 + n div 256 mod 16 = n div 256"
    and b: "n div 256 * 16 + n div 16 mod 16 = n div 16"
    by simp_all
  show ?thesis
    by (simp only: a b) simp
qed

lemma hex4_unicode_escape:
  "hex4 (digit_char (unat c div 4096)) (digit_char (unat c div 256 mod 16))
        (digit_char (unat c div 16 mod 16)) (digit_char (unat c mod 16)) = Some (c :: 16 word)"
proof -
  have lt: "unat c < 65536"
    using unsigned_less [of c] by simp
  then have "unat c div 4096 < 16"
    by simp
  then have "hex4 (digit_char (unat c div 4096)) (digit_char (unat c div 256 mod 16))
        (digit_char (unat c div 16 mod 16)) (digit_char (unat c mod 16))
      = Some (word_of_nat (((unat c div 4096 * 16 + unat c div 256 mod 16) * 16
           + unat c div 16 mod 16) * 16 + unat c mod 16))"
    by (simp only: hex4_def hex_val_digit_char option.case mod_less_divisor zero_less_numeral)
  then show ?thesis
    by (simp only: hex_digits_value) simp
qed

lemma surrogate_plain:
  "is_high_surrogate c \<or> is_low_surrogate c \<Longrightarrow> c \<noteq> 0x22 \<and> \<not> c < 0x20 \<and> c \<noteq> 0x5C"
  by (auto simp: is_high_surrogate_def is_low_surrogate_def word_le_nat_alt word_less_nat_alt)

lemma parse_quote_unit:
  "parse_string_chars (quote_unit c @ t)
   = map_option (\<lambda>(s, r). (c # s, r)) (parse_string_chars t)"
proof -
  have esc: "parse_string_chars (unicode_escape c @ t)
      = map_option (\<lambda>(s, r). (c # s, r)) (parse_string_chars t)"
    by (simp add: unicode_escape_def Let_def hex4_unicode_escape)
  show ?thesis
    unfolding quote_unit_def using esc surrogate_plain [of c]
    by (simp add: unescape_def)
qed

lemma parse_quote_body: "parse_string_chars (quote_body s @ 0x22 # rest) = Some (s, rest)"
proof (induction s rule: quote_body.induct)
  case 1
  show ?case by simp
next
  case (2 c)
  show ?case by (simp add: parse_quote_unit)
next
  case (3 c d cs)
  show ?case
  proof (cases "is_high_surrogate c \<and> is_low_surrogate d")
    case True
    then have eq: "quote_body (c # d # cs) = c # d # quote_body cs"
      by simp
    from True 3 have ih: "parse_string_chars (quote_body cs @ 0x22 # rest) = Some (cs, rest)"
      by blast
    from True surrogate_plain [of c] surrogate_plain [of d] show ?thesis
      unfolding eq by (simp add: ih)
  next
    case False
    then have eq: "quote_body (c # d # cs) = quote_unit c @ quote_body (d # cs)"
      by auto
    from False 3 have ih: "parse_string_chars (quote_body (d # cs) @ 0x22 # rest) = Some (d # cs, rest)"
      by blast
    show ?thesis
      unfolding eq by (simp only: append_assoc parse_quote_unit ih) simp
  qed
qed

subsection \<open>Decimal numbers\<close>

lemma radix_digits_10_lt: "d \<in> set (radix_digits 10 n) \<Longrightarrow> d < 10"
proof (induction "10::nat" n rule: radix_digits.induct)
  case (1 n)
  then show ?case
    by (cases "n < 10") (auto simp: radix_digits.simps [of 10 n])
qed

lemma radix_digits_10_value: "foldl (\<lambda>a d. 10 * a + d) 0 (radix_digits 10 n) = n"
proof (induction "10::nat" n rule: radix_digits.induct)
  case (1 n)
  then show ?case
    by (cases "n < 10") (auto simp: radix_digits.simps [of 10 n])
qed

lemma radix_digits_nonempty: "radix_digits b n \<noteq> []"
  by (subst radix_digits.simps) simp

lemma radix_digits_10_hd: "0 < n \<Longrightarrow> hd (radix_digits 10 n) \<noteq> 0"
proof (induction "10::nat" n rule: radix_digits.induct)
  case (1 n)
  show ?case
  proof (cases "n < 10")
    case True
    with 1 show ?thesis by (simp add: radix_digits.simps [of 10 n])
  next
    case False
    then have "0 < n div 10" by simp
    with 1 False show ?thesis
      by (simp add: radix_digits.simps [of 10 n] radix_digits_nonempty)
  qed
qed

lemma radix_digits_10_single: "1 < length (radix_digits 10 n) \<Longrightarrow> 0 < n"
  by (cases "n = 0") (simp_all add: radix_digits.simps [of 10 0])

lemma is_digit_digit_char: "d < 10 \<Longrightarrow> is_digit (digit_char d)"
  by (simp add: is_digit_def word_le_nat_alt unat_digit_char)

lemma digit_char_eq_zero: "d < 10 \<Longrightarrow> digit_char d = 0x30 \<longleftrightarrow> d = 0"
proof -
  assume "d < 10"
  then have "unat (digit_char d) = 48 + d"
    by (simp add: unat_digit_char)
  moreover have "unat (0x30 :: 16 word) = 48"
    by simp
  ultimately show ?thesis
    by (metis add_cancel_right_right word_unat_eq_iff)
qed

lemma decimal_digits: "list_all is_digit (decimal n)"
  by (auto simp: decimal_def list_all_iff is_digit_digit_char radix_digits_10_lt)

lemma decimal_nonempty: "decimal n \<noteq> []"
  by (simp add: decimal_def radix_digits_nonempty)

lemma digits_value_decimal: "digits_value (decimal n) = n"
proof -
  have "foldl (\<lambda>a c. 10 * a + (unat c - 48)) 0 (map digit_char ds) = foldl (\<lambda>a d. 10 * a + d) 0 ds"
    if "\<forall>d \<in> set ds. d < 10" for ds
    using that by (induction ds rule: rev_induct) (simp_all add: unat_digit_char)
  then show ?thesis
    by (simp add: digits_value_def decimal_def radix_digits_10_lt radix_digits_10_value)
qed

lemma decimal_no_leading_zero: "0 < n \<Longrightarrow> hd (decimal n) \<noteq> 0x30"
  using radix_digits_10_hd [of n] radix_digits_10_lt [of "hd (radix_digits 10 n)" n]
  by (simp add: decimal_def hd_map radix_digits_nonempty digit_char_eq_zero)

lemma decimal_leading: "\<not> (1 < length (decimal n) \<and> hd (decimal n) = 0x30)"
  using decimal_no_leading_zero [of n] radix_digits_10_single [of n]
  by (auto simp: decimal_def)

lemma decimal_not_minus:
  "(case decimal n @ r of [] \<Rightarrow> False | c # cs \<Rightarrow> c = 0x2D) = False"
proof -
  obtain c cs where eq: "decimal n = c # cs"
    using decimal_nonempty [of n] by (cases "decimal n") auto
  with decimal_digits [of n] have "is_digit c"
    by simp
  then have "c \<noteq> 0x2D"
    by (auto simp: is_digit_def word_le_nat_alt)
  with eq show ?thesis
    by simp
qed

lemma takeWhile_decimal:
  "\<not> is_digit c \<Longrightarrow> takeWhile is_digit (decimal n @ c # r) = decimal n"
  "\<not> is_digit c \<Longrightarrow> dropWhile is_digit (decimal n @ c # r) = c # r"
  using decimal_digits [of n] by (simp_all add: list_all_iff takeWhile_append2 dropWhile_append2)

lemma parse_number_decimal:
  assumes "\<bar>n\<bar> \<le> 2 ^ 53"
  shows "parse_number (number_toString 10 n @ 0x7D # r) = Some (JNum n, 0x7D # r)"
proof -
  have nd: "\<not> is_digit (0x7D :: 16 word)"
    by (simp add: is_digit_def)
  have fr: "parse_fraction (0x7D # r) = Some ([], 0x7D # r)"
    by (simp add: parse_fraction_def)
  have ex: "parse_exponent (0x7D # r) = Some ([], 0x7D # r)"
    by (simp add: parse_exponent_def)
  show ?thesis
  proof (cases "n < 0")
    case False
    then have s: "number_toString 10 n = decimal (nat n)"
      by (simp add: number_toString_def decimal_def)
    from assms False have "nat n \<le> 2 ^ 53"
      by (simp add: nat_le_iff)
    with False decimal_leading [of "nat n"] show ?thesis
      unfolding s parse_number_def
      by (simp add: decimal_not_minus takeWhile_decimal nd fr ex decimal_nonempty
          digits_value_decimal Let_def)
  next
    case True
    then have s: "number_toString 10 n = 0x2D # decimal (nat (- n))"
      by (simp add: number_toString_def decimal_def)
    from True have pos: "0 < nat (- n)"
      by simp
    from assms True have "nat (- n) \<le> 2 ^ 53"
      by (simp add: nat_le_iff)
    with True pos decimal_leading [of "nat (- n)"] show ?thesis
      unfolding s parse_number_def
      by (simp add: takeWhile_decimal nd fr ex decimal_nonempty
          digits_value_decimal Let_def)
  qed
qed

subsection \<open>Values, members and elements of the serialised task list\<close>

lemma str_units:
  "str ''{'' = [0x7B]" "str ''}'' = [0x7D]" "str ''['' = [0x5B]" "str '']'' = [0x5D]"
  "str '':'' = [0x3A]" "str '','' = [0x2C]"
  "str ''true'' = [0x74, 0x72, 0x75, 0x65]" "str ''false'' = [0x66, 0x61, 0x6C, 0x73, 0x65]"
  "str ''null'' = [0x6E, 0x75, 0x6C, 0x6C]"
  by (simp_all add: str_def)

lemma skip_ws_plain: "\<not> is_json_ws c \<Longrightarrow> skip_ws (c # r) = c # r"
  by (simp add: skip_ws_def)

lemma plain_units:
  "\<not> is_json_ws 0x22" "\<not> is_json_ws 0x2C" "\<not> is_json_ws 0x7D" "\<not> is_json_ws 0x7B"
  "\<not> is_json_ws 0x5D" "\<not> is_json_ws 0x3A" "\<not> is_json_ws 0x5B"
  by (simp_all add: is_json_ws_def)

lemma parse_value_string:
  "parse_value (Suc f) (0x22 # quote_body s @ 0x22 # rest) = Parsed (JStr s, rest)"
  by (simp add: parse_quote_body)

lemma parse_value_bool:
  "parse_value (Suc f) ((if b then str ''true'' else str ''false'') @ rest) = Parsed (JBool b, rest)"
  by (simp add: str_units)

lemma number_toString_first:
  "\<exists>c cs. number_toString 10 n = c # cs \<and> (c = 0x2D \<or> is_digit c)"
proof (cases "n < 0")
  case True
  then show ?thesis by (simp add: number_toString_def)
next
  case False
  obtain c cs where eq: "decimal (nat n) = c # cs"
    using decimal_nonempty [of "nat n"] by (cases "decimal (nat n)") auto
  with decimal_digits [of "nat n"] have "is_digit c"
    by simp
  with eq False show ?thesis
    by (simp add: number_toString_def decimal_def)
qed

lemma parse_value_number:
  assumes "\<bar>n\<bar> \<le> 2 ^ 53"
  shows "parse_value (Suc f) (number_toString 10 n @ 0x7D # r) = Parsed (JNum n, 0x7D # r)"
proof -
  obtain c cs where eq: "number_toString 10 n = c # cs" and c: "c = 0x2D \<or> is_digit c"
    using number_toString_first [of n] by blast
  from c have ne: "c \<noteq> 0x7B" "c \<noteq> 0x5B" "c \<noteq> 0x22" "c \<noteq> 0x74" "c \<noteq> 0x66" "c \<noteq> 0x6E"
    by (auto simp: is_digit_def word_le_nat_alt)
  have "parse_value (Suc f) (c # cs @ 0x7D # r)
        = (case parse_number (c # cs @ 0x7D # r) of None \<Rightarrow> Malformed
           | Some (v, r') \<Rightarrow> Parsed (v, r'))"
    using ne by (simp add: str_units)
  also have "parse_number (c # cs @ 0x7D # r) = Some (JNum n, 0x7D # r)"
    using parse_number_decimal [OF assms, of r] by (simp add: eq)
  finally show ?thesis
    by (simp add: eq)
qed

lemma parse_members_step:
  assumes "parse_value f r1 = Parsed (v, d # r3)"
    and "\<not> is_json_ws d" and "r1 \<noteq> []" and "\<not> is_json_ws (hd r1)"
  shows "parse_members (Suc f) acc (0x22 # quote_body k @ 0x22 # 0x3A # r1)
         = (if d = 0x2C then parse_members f (obj_put acc k v) (skip_ws r3)
            else if d = 0x7D then Parsed (JObj (obj_put acc k v), r3)
            else Malformed)"
proof -
  from assms(3,4) have "skip_ws r1 = r1"
    by (cases r1) (simp_all add: skip_ws_plain)
  with assms(1,2) show ?thesis
    by (simp add: parse_members.simps parse_quote_body skip_ws_plain plain_units)
qed

declare parse_value.simps [simp del] parse_elements.simps [simp del] parse_members.simps [simp del]

lemma keys_distinct:
  "str ''title'' \<noteq> str ''id''" "str ''completed'' \<noteq> str ''id''"
  "str ''completed'' \<noteq> str ''title''" "str ''createdAt'' \<noteq> str ''id''"
  "str ''createdAt'' \<noteq> str ''title''" "str ''createdAt'' \<noteq> str ''completed''"
  by (simp_all add: str_def)

lemma keys_not_index:
  "\<not> is_array_index (str ''id'')" "\<not> is_array_index (str ''title'')"
  "\<not> is_array_index (str ''completed'')" "\<not> is_array_index (str ''createdAt'')"
  by (simp_all add: is_array_index_def str_def is_digit_def)

lemma obj_put_todo:
  "obj_put (obj_put (obj_put (obj_put [] (str ''id'') a) (str ''title'') b)
      (str ''completed'') c) (str ''createdAt'') d
   = [(str ''id'', a), (str ''title'', b), (str ''completed'', c), (str ''createdAt'', d)]"
  using keys_distinct by (simp add: obj_put_def keys_not_index)

lemma parse_value_todo:
  assumes "\<bar>createdAt t\<bar> \<le> 2 ^ 53"
  shows "parse_value (Suc (Suc (Suc (Suc (Suc (Suc f)))))) (stringify_todo t @ rest)
         = Parsed (todo_js t, rest)"
proof -
  let ?n = "number_toString 10 (createdAt t) @ 0x7D # rest"
  let ?c = "(if completed t then str ''true'' else str ''false'')
            @ 0x2C # 0x22 # quote_body (str ''createdAt'') @ 0x22 # 0x3A # ?n"
  let ?t = "0x22 # quote_body (title t) @ 0x22 # 0x2C # 0x22 # quote_body (str ''completed'')
            @ 0x22 # 0x3A # ?c"
  let ?i = "0x22 # quote_body (id_todo t) @ 0x22 # 0x2C # 0x22 # quote_body (str ''title'')
            @ 0x22 # 0x3A # ?t"
  have shape: "stringify_todo t @ rest = 0x7B # 0x22 # quote_body (str ''id'') @ 0x22 # 0x3A # ?i"
    by (simp add: stringify_todo_def QuoteJSONString_def str_units)
  obtain c cs where first: "number_toString 10 (createdAt t) = c # cs"
    and c: "c = 0x2D \<or> is_digit c"
    using number_toString_first [of "createdAt t"] by blast
  from c have nws: "\<not> is_json_ws c"
    by (auto simp: is_json_ws_def is_digit_def word_le_nat_alt)
  have m4: "parse_members (Suc (Suc f)) acc (0x22 # quote_body (str ''createdAt'') @ 0x22 # 0x3A # ?n)
        = Parsed (JObj (obj_put acc (str ''createdAt'') (JNum (createdAt t))), rest)" for acc
  proof -
    have "?n \<noteq> []" "\<not> is_json_ws (hd ?n)"
      using nws by (simp_all add: first)
    from parse_members_step [OF parse_value_number [OF assms, of f rest] _ this]
    show ?thesis
      by (simp add: plain_units)
  qed
  have m3: "parse_members (Suc (Suc (Suc f))) acc
          (0x22 # quote_body (str ''completed'') @ 0x22 # 0x3A # ?c)
        = Parsed (JObj (obj_put (obj_put acc (str ''completed'') (JBool (completed t)))
            (str ''createdAt'') (JNum (createdAt t))), rest)" for acc
  proof -
    have "?c \<noteq> []" "\<not> is_json_ws (hd ?c)"
      by (simp_all add: str_units is_json_ws_def)
    from parse_members_step [OF parse_value_bool _ this]
    show ?thesis
      by (simp add: plain_units skip_ws_plain m4)
  qed
  have m2: "parse_members (Suc (Suc (Suc (Suc f)))) acc
          (0x22 # quote_body (str ''title'') @ 0x22 # 0x3A # ?t)
        = Parsed (JObj (obj_put (obj_put (obj_put acc (str ''title'') (JStr (title t)))
            (str ''completed'') (JBool (completed t))) (str ''createdAt'') (JNum (createdAt t))), rest)"
    for acc
  proof -
    have "?t \<noteq> []" "\<not> is_json_ws (hd ?t)"
      by (simp_all add: plain_units)
    from parse_members_step [OF parse_value_string _ this]
    show ?thesis
      by (simp add: plain_units skip_ws_plain m3)
  qed
  have m1: "parse_members (Suc (Suc (Suc (Suc (Suc f))))) acc
          (0x22 # quote_body (str ''id'') @ 0x22 # 0x3A # ?i)
        = Parsed (JObj (obj_put (obj_put (obj_put (obj_put acc (str ''id'') (JStr (id_todo t)))
            (str ''title'') (JStr (title t))) (str ''completed'') (JBool (completed t)))
            (str ''createdAt'') (JNum (createdAt t))), rest)"
    for acc
  proof -
    have "?i \<noteq> []" "\<not> is_json_ws (hd ?i)"
      by (simp_all add: plain_units)
    from parse_members_step [OF parse_value_string _ this]
    show ?thesis
      by (simp add: plain_units skip_ws_plain m2)
  qed
  show ?thesis
    unfolding shape
    by (simp add: parse_value.simps skip_ws_plain plain_units m1 obj_put_todo todo_js_def)
qed

lemma stringify_todo_first: "\<exists>r. stringify_todo t = 0x7B # r"
  by (simp add: stringify_todo_def str_units)

lemma join_comma_first: "\<exists>r. join_comma (map stringify_todo (u # us)) = 0x7B # r"
  using stringify_todo_first [of u] by (cases us) auto

lemma length_join_comma: "length ts \<le> length (join_comma (map stringify_todo ts))"
proof (induction ts)
  case Nil
  show ?case by simp
next
  case (Cons t ts)
  obtain r where "stringify_todo t = 0x7B # r"
    using stringify_todo_first by blast
  with Cons show ?case
    by (cases ts) simp_all
qed

lemma six_more: "6 \<le> g \<Longrightarrow> \<exists>h. g = Suc (Suc (Suc (Suc (Suc (Suc h)))))"
  by (rule exI [of _ "g - 6"]) simp

lemma parse_elements_todos:
  "ts \<noteq> [] \<Longrightarrow> \<forall>t \<in> set ts. \<bar>createdAt t\<bar> \<le> 2 ^ 53 \<Longrightarrow> length ts + 6 \<le> f \<Longrightarrow>
   parse_elements f (join_comma (map stringify_todo ts) @ 0x5D # rest)
   = Parsed (map todo_js ts, rest)"
proof (induction ts arbitrary: f)
  case Nil
  then show ?case by simp
next
  case (Cons t ts)
  from Cons.prems obtain g where f: "f = Suc g" and g: "length ts + 6 \<le> g"
    by (cases f) auto
  from g obtain h where h: "g = Suc (Suc (Suc (Suc (Suc (Suc h)))))"
    using six_more [of g] by auto
  from Cons.prems have safe: "\<bar>createdAt t\<bar> \<le> 2 ^ 53"
    by simp
  show ?case
  proof (cases ts)
    case Nil
    have "parse_value g (stringify_todo t @ 0x5D # rest) = Parsed (todo_js t, 0x5D # rest)"
      unfolding h by (rule parse_value_todo [OF safe])
    with Nil show ?thesis
      by (simp add: f parse_elements.simps skip_ws_plain plain_units)
  next
    case (Cons u us)
    obtain r where r: "join_comma (map stringify_todo (u # us)) = 0x7B # r"
      using join_comma_first by blast
    have pv: "parse_value g (stringify_todo t @ 0x2C # join_comma (map stringify_todo ts) @ 0x5D # rest)
        = Parsed (todo_js t, 0x2C # join_comma (map stringify_todo ts) @ 0x5D # rest)"
      unfolding h by (rule parse_value_todo [OF safe])
    have ih: "parse_elements g (join_comma (map stringify_todo ts) @ 0x5D # rest)
        = Parsed (map todo_js ts, rest)"
      using Cons.IH [of g] Cons.prems g Cons by simp
    have sk: "skip_ws (join_comma (map stringify_todo ts) @ 0x5D # rest)
        = join_comma (map stringify_todo ts) @ 0x5D # rest"
      using r Cons by (simp add: skip_ws_plain plain_units)
    have shape: "join_comma (map stringify_todo (t # ts)) @ 0x5D # rest
        = stringify_todo t @ 0x2C # join_comma (map stringify_todo ts) @ 0x5D # rest"
      using Cons by (simp add: str_units)
    show ?thesis
      unfolding shape f
      by (simp add: parse_elements.simps pv skip_ws_plain plain_units sk ih)
  qed
qed

lemma JSON_parse_stringify:
  assumes "\<forall>t \<in> set ts. \<bar>createdAt t\<bar> \<le> 2 ^ 53"
  shows "JSON_parse (JSON_stringify ts) = Inr (todos_js ts)"
proof (cases ts)
  case Nil
  have "parse_value (Suc 5) [0x5B, 0x5D] = Parsed (JArr [], [])"
    by (subst parse_value.simps) (simp add: skip_ws_plain plain_units)
  moreover have "(6::nat) = Suc 5"
    by simp
  ultimately have "parse_value 6 [0x5B, 0x5D] = Parsed (JArr [], [])"
    by (simp only:)
  with Nil show ?thesis
    by (simp add: JSON_parse_def JSON_stringify_def todos_js_def str_units skip_ws_def
        is_json_ws_def)
next
  case (Cons u us)
  let ?body = "join_comma (map stringify_todo ts)"
  obtain r where r: "?body = 0x7B # r"
    using join_comma_first Cons by blast
  have shape: "JSON_stringify ts = 0x5B # ?body @ [0x5D]"
    by (simp add: JSON_stringify_def str_units)
  have "length ts \<le> length ?body"
    by (rule length_join_comma)
  moreover from Cons have "1 \<le> length ts"
    by simp
  ultimately have fuel: "length ts + 6 \<le> 2 * length (0x5B # ?body @ [0x5D]) + 1"
    by simp
  have pe: "parse_elements (2 * length (0x5B # ?body @ [0x5D]) + 1) (?body @ [0x5D])
      = Parsed (map todo_js ts, [])"
    using parse_elements_todos [OF _ assms fuel, of "[]"] Cons by simp
  have nil: "skip_ws [] = []"
    by (simp add: skip_ws_def)
  show ?thesis
    using pe r unfolding JSON_parse_def shape
    by (simp add: parse_value.simps skip_ws_plain plain_units todos_js_def nil)
qed

lemma as_todo_todo_js: "as_todo (todo_js t) = Some t"
  using keys_distinct by (simp add: as_todo_def todo_js_def get_prop_def)

lemma as_todos_todos_js: "as_todos (todos_js ts) = map Some ts"
  by (simp add: as_todos_def todos_js_def as_todo_todo_js)

lemma JSON_parse_empty: "JSON_parse [] = Inl SyntaxError"
  by (simp add: JSON_parse_def skip_ws_def parse_value.simps)

lemma JSON_stringify_nonempty: "JSON_stringify ts \<noteq> []"
  by (simp add: JSON_stringify_def str_units)

lemma loadStorage_cases:
  "loadStorage ls key fallback =
     Inr (if readable ls
          then (case items ls key of
                  None \<Rightarrow> fallback
                | Some text \<Rightarrow> (case JSON_parse text of Inl e \<Rightarrow> fallback | Inr v \<Rightarrow> v))
          else fallback)"
  by (auto simp: loadStorage_def getItem_def try_catch_def JSON_parse_empty
      split: option.splits sum.splits)

subsection \<open>The parser never runs out of fuel\<close>

text \<open>
  Every successful parse consumes input, so the recursion is never deeper than
  twice the length of the text plus one; with the fuel that \<open>JSON_parse\<close>
  supplies the answer \<open>NoFuel\<close> does not occur, and more fuel would not change
  the result.
\<close>

lemma length_skip_ws: "length (skip_ws s) \<le> length s"
  by (simp add: skip_ws_def length_dropWhile_le)

lemma parse_string_chars_shorter:
  "parse_string_chars s = Some (k, r) \<Longrightarrow> length r < length s"
proof (induction s arbitrary: k r rule: parse_string_chars.induct)
  case 1
  then show ?case by simp
next
  case (2 c cs)
  then show ?case
    by (auto split: if_splits list.splits option.splits) fastforce+
qed

lemma parse_fraction_le: "parse_fraction s = Some (x, r) \<Longrightarrow> length r \<le> length s"
  by (auto simp: parse_fraction_def length_dropWhile_le le_SucI split: list.splits if_splits)

lemma parse_exponent_le: "parse_exponent s = Some (x, r) \<Longrightarrow> length r \<le> length s"
proof -
  have "length (dropWhile is_digit (drop n cs)) \<le> Suc (length cs)" for n and cs :: jsstring
    using length_dropWhile_le [of is_digit "drop n cs"] by simp
  from this this [of 0] show "parse_exponent s = Some (x, r) \<Longrightarrow> length r \<le> length s"
    by (auto simp: parse_exponent_def Let_def split: list.splits if_splits)
qed

lemma parse_number_shorter:
  assumes "parse_number s = Some (v, r)"
  shows "length r < length s"
proof -
  define neg where "neg = (case s of [] \<Rightarrow> False | c # cs \<Rightarrow> c = 0x2D)"
  define s1 where "s1 = (if neg then tl s else s)"
  from assms obtain fr r2 ex where ne: "takeWhile is_digit s1 \<noteq> []"
    and f: "parse_fraction (dropWhile is_digit s1) = Some (fr, r2)"
    and e: "parse_exponent r2 = Some (ex, r)"
    unfolding parse_number_def neg_def [symmetric] Let_def s1_def [symmetric]
    by (auto split: if_splits option.splits)
  have "length (takeWhile is_digit s1) + length (dropWhile is_digit s1) = length s1"
    by (metis length_append takeWhile_dropWhile_id)
  with ne have "length (dropWhile is_digit s1) < length s1"
    by (cases "takeWhile is_digit s1") auto
  moreover have "length s1 \<le> length s"
    by (simp add: s1_def)
  ultimately show ?thesis
    using parse_fraction_le [OF f] parse_exponent_le [OF e] by linarith
qed

lemmas parse_simps = parse_value.simps parse_elements.simps parse_members.simps

lemma skip_ws_cons_le: "skip_ws s = c # r \<Longrightarrow> length r < length s"
  using length_skip_ws [of s] by simp

lemma parse_shorter:
  "(\<forall>s v r. parse_value f s = Parsed (v, r) \<longrightarrow> length r < length s)
   \<and> (\<forall>s vs r. parse_elements f s = Parsed (vs, r) \<longrightarrow> length r < length s)
   \<and> (\<forall>acc s v r. parse_members f acc s = Parsed (v, r) \<longrightarrow> length r < length s)"
proof (induction f)
  case 0
  show ?case by (simp add: parse_simps)
next
  case (Suc f)
  then have pv: "\<And>s v r. parse_value f s = Parsed (v, r) \<Longrightarrow> length r < length s"
    and pe: "\<And>s vs r. parse_elements f s = Parsed (vs, r) \<Longrightarrow> length r < length s"
    and pm: "\<And>acc s v r. parse_members f acc s = Parsed (v, r) \<Longrightarrow> length r < length s"
    by blast+
  have v: "length r < length s" if "parse_value (Suc f) s = Parsed (v, r)" for s v r
  proof (cases s)
    case Nil
    with that show ?thesis by (simp add: parse_simps)
  next
    case (Cons c cs)
    consider (obj) "c = 0x7B" | (arr) "c \<noteq> 0x7B" "c = 0x5B" | (strg) "c \<noteq> 0x7B" "c \<noteq> 0x5B" "c = 0x22"
      | (other) "c \<noteq> 0x7B" "c \<noteq> 0x5B" "c \<noteq> 0x22"
      by blast
    then show ?thesis
    proof cases
      case obj
      with that Cons obtain d ds where sk: "skip_ws cs = d # ds"
        by (auto simp: parse_simps split: list.splits)
      show ?thesis
      proof (cases "d = 0x7D")
        case True
        with that Cons obj sk skip_ws_cons_le [OF sk] show ?thesis by (auto simp: parse_simps)
      next
        case False
        with that Cons obj sk have "parse_members f [] (d # ds) = Parsed (v, r)"
          by (simp add: parse_simps)
        from pm [OF this] length_skip_ws [of cs] sk Cons show ?thesis by simp
      qed
    next
      case arr
      with that Cons obtain d ds where sk: "skip_ws cs = d # ds"
        by (auto simp: parse_simps split: list.splits)
      show ?thesis
      proof (cases "d = 0x5D")
        case True
        with that Cons arr sk skip_ws_cons_le [OF sk] show ?thesis by (auto simp: parse_simps)
      next
        case False
        with that Cons arr sk obtain vs where "parse_elements f (d # ds) = Parsed (vs, r)"
          by (auto simp: parse_simps split: outcome.splits)
        from pe [OF this] length_skip_ws [of cs] sk Cons show ?thesis by simp
      qed
    next
      case strg
      with that Cons obtain x where "parse_string_chars cs = Some (x, r)"
        by (auto simp: parse_simps split: option.splits)
      from parse_string_chars_shorter [OF this] Cons show ?thesis by simp
    next
      case other
      with that Cons consider "r = drop 4 s" | "r = drop 5 s" | w where "parse_number s = Some (w, r)"
        by (auto simp: parse_simps split: if_splits option.splits)
      then show ?thesis
      proof cases
        case 3
        from parse_number_shorter [OF this] show ?thesis .
      qed (use Cons in auto)
    qed
  qed
  have e: "length r < length s" if "parse_elements (Suc f) s = Parsed (vs, r)" for s vs r
  proof -
    from that obtain w r1 where w: "parse_value f s = Parsed (w, r1)"
      by (auto simp: parse_simps split: outcome.splits)
    with that obtain c cs where sk: "skip_ws r1 = c # cs"
      by (auto simp: parse_simps split: list.splits)
    from pv [OF w] skip_ws_cons_le [OF sk] have cs: "length cs < length s"
      by simp
    show ?thesis
    proof (cases "c = 0x2C")
      case True
      with that w sk obtain ws where "parse_elements f (skip_ws cs) = Parsed (ws, r)"
        by (auto simp: parse_simps split: outcome.splits)
      from pe [OF this] length_skip_ws [of cs] cs show ?thesis by simp
    next
      case False
      with that w sk have "r = cs"
        by (auto simp: parse_simps split: if_splits)
      with cs show ?thesis by simp
    qed
  qed
  have m: "length r < length s" if "parse_members (Suc f) acc s = Parsed (v, r)" for acc s v r
  proof -
    from that obtain cs where s: "s = 0x22 # cs"
      by (auto simp: parse_simps split: list.splits if_splits)
    with that obtain k r0 where k: "parse_string_chars cs = Some (k, r0)"
      by (auto simp: parse_simps split: option.splits)
    with that s obtain r1 where sk1: "skip_ws r0 = 0x3A # r1"
      by (auto simp: parse_simps split: list.splits if_splits)
    with that s k obtain w r2 where w: "parse_value f (skip_ws r1) = Parsed (w, r2)"
      by (auto simp: parse_simps split: outcome.splits)
    with that s k sk1 obtain d r3 where sk2: "skip_ws r2 = d # r3"
      by (auto simp: parse_simps split: list.splits)
    from parse_string_chars_shorter [OF k] skip_ws_cons_le [OF sk1] pv [OF w]
      length_skip_ws [of r1] skip_ws_cons_le [OF sk2] s
    have r3: "length r3 < length s"
      by simp
    show ?thesis
    proof (cases "d = 0x2C")
      case True
      with that s k sk1 w sk2
      have "parse_members f (obj_put acc k w) (skip_ws r3) = Parsed (v, r)"
        by (simp add: parse_simps)
      from pm [OF this] length_skip_ws [of r3] r3 show ?thesis by simp
    next
      case False
      with that s k sk1 w sk2 have "r = r3"
        by (auto simp: parse_simps split: if_splits)
      with r3 show ?thesis by simp
    qed
  qed
  from v e m show ?case by blast
qed

lemma parse_fuel:
  "(\<forall>s. 2 * length s < f \<longrightarrow> parse_value f s \<noteq> NoFuel)
   \<and> (\<forall>s. 2 * length s + 1 < f \<longrightarrow> parse_elements f s \<noteq> NoFuel)
   \<and> (\<forall>acc s. 2 * length s + 1 < f \<longrightarrow> parse_members f acc s \<noteq> NoFuel)"
proof (induction f)
  case 0
  show ?case by simp
next
  case (Suc f)
  then have pv: "\<And>s. 2 * length s < f \<Longrightarrow> parse_value f s \<noteq> NoFuel"
    and pe: "\<And>s. 2 * length s + 1 < f \<Longrightarrow> parse_elements f s \<noteq> NoFuel"
    and pm: "\<And>acc s. 2 * length s + 1 < f \<Longrightarrow> parse_members f acc s \<noteq> NoFuel"
    by blast+
  have v: "parse_value (Suc f) s \<noteq> NoFuel" if b: "2 * length s < Suc f" for s
  proof
    assume nf: "parse_value (Suc f) s = NoFuel"
    then obtain c cs where s: "s = c # cs"
      by (cases s) (auto simp: parse_simps)
    from nf s obtain d ds where sk: "skip_ws cs = d # ds"
      and inner: "parse_members f [] (d # ds) = NoFuel \<or> parse_elements f (d # ds) = NoFuel"
      by (auto simp: parse_simps split: list.splits if_splits outcome.splits option.splits)
    from length_skip_ws [of cs] sk s b have "2 * length (d # ds) + 1 < f"
      by simp
    with inner pm [of "d # ds" "[]"] pe [of "d # ds"] show False
      by blast
  qed
  have e: "parse_elements (Suc f) s \<noteq> NoFuel" if b: "2 * length s + 1 < Suc f" for s
  proof
    assume nf: "parse_elements (Suc f) s = NoFuel"
    from b have "2 * length s < f"
      by simp
    from pv [OF this] nf obtain w r1 where w: "parse_value f s = Parsed (w, r1)"
      by (auto simp: parse_simps split: outcome.splits)
    with nf obtain cs where sk: "skip_ws r1 = 0x2C # cs"
      and inner: "parse_elements f (skip_ws cs) = NoFuel"
      by (auto simp: parse_simps split: list.splits if_splits outcome.splits)
    from parse_shorter [of f] w have "length r1 < length s"
      by blast
    with skip_ws_cons_le [OF sk] length_skip_ws [of cs] b
    have "2 * length (skip_ws cs) + 1 < f"
      by simp
    with inner pe show False
      by blast
  qed
  have m: "parse_members (Suc f) acc s \<noteq> NoFuel" if b: "2 * length s + 1 < Suc f" for acc s
  proof
    assume nf: "parse_members (Suc f) acc s = NoFuel"
    then obtain cs where s: "s = 0x22 # cs"
      by (auto simp: parse_simps split: list.splits if_splits)
    with nf obtain k r0 where k: "parse_string_chars cs = Some (k, r0)"
      by (auto simp: parse_simps split: option.splits)
    with nf s obtain r1 where sk1: "skip_ws r0 = 0x3A # r1"
      by (auto simp: parse_simps split: list.splits if_splits)
    from parse_string_chars_shorter [OF k] skip_ws_cons_le [OF sk1] length_skip_ws [of r1] s
    have l1: "length (skip_ws r1) < length s"
      by simp
    with b have "2 * length (skip_ws r1) < f"
      by simp
    from pv [OF this] nf s k sk1 obtain w r2 where w: "parse_value f (skip_ws r1) = Parsed (w, r2)"
      by (auto simp: parse_simps split: outcome.splits)
    with nf s k sk1 obtain r3 where sk2: "skip_ws r2 = 0x2C # r3"
      and inner: "parse_members f (obj_put acc k w) (skip_ws r3) = NoFuel"
      by (auto simp: parse_simps split: list.splits if_splits)
    from parse_shorter [of f] w have "length r2 < length (skip_ws r1)"
      by blast
    with l1 skip_ws_cons_le [OF sk2] length_skip_ws [of r3] b
    have "2 * length (skip_ws r3) + 1 < f"
      by simp
    with inner pm show False
      by blast
  qed
  from v e m show ?case by blast
qed

lemma JSON_parse_fuel: "parse_value (2 * length s + 2) (skip_ws s) \<noteq> NoFuel"
proof -
  have "2 * length (skip_ws s) < 2 * length s + 2"
    using length_skip_ws [of s] by simp
  with parse_fuel [of "2 * length s + 2"] show ?thesis
    by blast
qed

lemma parse_more_fuel:
  "(\<forall>s. parse_value f s \<noteq> NoFuel \<longrightarrow> parse_value (Suc f) s = parse_value f s)
   \<and> (\<forall>s. parse_elements f s \<noteq> NoFuel \<longrightarrow> parse_elements (Suc f) s = parse_elements f s)
   \<and> (\<forall>acc s. parse_members f acc s \<noteq> NoFuel \<longrightarrow>
         parse_members (Suc f) acc s = parse_members f acc s)"
proof (induction f)
  case 0
  show ?case by (simp add: parse_simps)
next
  case (Suc f)
  then have pv: "\<And>s. parse_value f s \<noteq> NoFuel \<Longrightarrow> parse_value (Suc f) s = parse_value f s"
    and pe: "\<And>s. parse_elements f s \<noteq> NoFuel \<Longrightarrow> parse_elements (Suc f) s = parse_elements f s"
    and pm: "\<And>acc s. parse_members f acc s \<noteq> NoFuel \<Longrightarrow>
               parse_members (Suc f) acc s = parse_members f acc s"
    by blast+
  have v: "parse_value (Suc (Suc f)) s = parse_value (Suc f) s"
    if ne: "parse_value (Suc f) s \<noteq> NoFuel" for s
  proof (cases s)
    case Nil
    then show ?thesis by (simp add: parse_value.simps(2))
  next
    case (Cons c cs)
    show ?thesis
    proof (cases "skip_ws cs")
      case Nil
      with Cons show ?thesis by (simp add: parse_value.simps(2))
    next
      case sk: (Cons d ds)
      have "parse_members (Suc f) [] (d # ds) = parse_members f [] (d # ds)"
        if "c = 0x7B" "d \<noteq> 0x7D"
        using ne that Cons sk by (intro pm) (simp add: parse_value.simps(2))
      moreover have "parse_elements (Suc f) (d # ds) = parse_elements f (d # ds)"
        if "c \<noteq> 0x7B" "c = 0x5B" "d \<noteq> 0x5D"
        using ne that Cons sk by (intro pe) (auto simp: parse_value.simps(2) split: outcome.splits)
      ultimately show ?thesis
        using Cons sk by (auto simp: parse_value.simps(2))
    qed
  qed
  have e: "parse_elements (Suc (Suc f)) s = parse_elements (Suc f) s"
    if ne: "parse_elements (Suc f) s \<noteq> NoFuel" for s
  proof -
    from ne have "parse_value f s \<noteq> NoFuel"
      by (auto simp: parse_elements.simps(2))
    from pv [OF this] have same: "parse_value (Suc f) s = parse_value f s" .
    show ?thesis
    proof (cases "parse_value f s")
      case (Parsed x)
      obtain w r1 where x: "x = (w, r1)"
        by (cases x)
      show ?thesis
      proof (cases "skip_ws r1")
        case Nil
        with Parsed x same show ?thesis
          by (simp add: parse_elements.simps(2) [of _ s])
      next
        case (Cons c cs)
        have "parse_elements (Suc f) (skip_ws cs) = parse_elements f (skip_ws cs)" if "c = 0x2C"
          using ne that Parsed x Cons
          by (intro pe) (auto simp: parse_elements.simps(2) [of _ s] split: outcome.splits)
        with Parsed x same Cons show ?thesis
          by (simp add: parse_elements.simps(2) [of _ s])
      qed
    qed (use same in \<open>simp_all add: parse_elements.simps(2) [of _ s]\<close>)
  qed
  have m: "parse_members (Suc (Suc f)) acc s = parse_members (Suc f) acc s"
    if ne: "parse_members (Suc f) acc s \<noteq> NoFuel" for acc s
  proof (cases "\<exists>cs. s = 0x22 # cs")
    case False
    then show ?thesis
      by (cases s) (auto simp: parse_members.simps(2))
  next
    case True
    then obtain cs where s: "s = 0x22 # cs"
      by blast
    note u = parse_members.simps(2) [of _ acc "0x22 # cs"]
    show ?thesis
    proof (cases "parse_string_chars cs")
      case None
      then show ?thesis unfolding s by (simp add: u)
    next
      case (Some y)
      obtain k r0 where y: "y = (k, r0)"
        by (cases y)
      show ?thesis
      proof (cases "\<exists>r1. skip_ws r0 = 0x3A # r1")
        case False
        with Some y show ?thesis
          unfolding s by (cases "skip_ws r0") (auto simp: u)
      next
        case True
        then obtain r1 where sk1: "skip_ws r0 = 0x3A # r1"
          by blast
        from ne Some y sk1 have "parse_value f (skip_ws r1) \<noteq> NoFuel"
          unfolding s by (auto simp: u)
        from pv [OF this] have same: "parse_value (Suc f) (skip_ws r1) = parse_value f (skip_ws r1)" .
        show ?thesis
        proof (cases "parse_value f (skip_ws r1)")
          case (Parsed x)
          obtain w r2 where x: "x = (w, r2)"
            by (cases x)
          show ?thesis
          proof (cases "skip_ws r2")
            case Nil
            with Some y sk1 same Parsed x show ?thesis
              unfolding s by (simp add: u)
          next
            case sk2: (Cons d r3)
            have "parse_members (Suc f) (obj_put acc k w) (skip_ws r3)
                = parse_members f (obj_put acc k w) (skip_ws r3)" if "d = 0x2C"
              using ne that Some y sk1 Parsed x sk2
              unfolding s by (intro pm) (simp add: u)
            with Some y sk1 same Parsed x sk2 show ?thesis
              unfolding s by (simp add: u)
          qed
        qed (use Some y sk1 same in \<open>simp_all add: s u\<close>)
      qed
    qed
  qed
  from v e m show ?case by blast
qed

lemma parse_value_fuel_irrelevant:
  assumes "parse_value f s \<noteq> NoFuel"
  shows "parse_value (f + k) s = parse_value f s"
proof (induction k)
  case 0
  show ?case by simp
next
  case (Suc k)
  with assms parse_more_fuel [of "f + k"] show ?case
    by simp
qed

lemma JSON_parse_any_fuel:
  "parse_value (2 * length s + 2 + k) (skip_ws s) = parse_value (2 * length s + 2) (skip_ws s)"
  by (rule parse_value_fuel_irrelevant [OF JSON_parse_fuel])

subsection \<open>Round trip and start-up\<close>

text \<open>
  C6: for every task list whose timestamps are integral Numbers that JavaScript
  holds exactly (every value of \<open>Date.now()\<close> is one), parsing the text that
  \<open>JSON.stringify\<close> writes for the list gives the array of the same tasks in
  the same order: each element has the properties \<open>id\<close>, \<open>title\<close>, \<open>completed\<close>
  and \<open>createdAt\<close> of the task it came from. When the write to storage and the
  read from it succeed, \<open>loadStorage\<close> after \<open>saveStorage\<close> returns that array.
\<close>

theorem JSON_round_trip:
  assumes "\<forall>t \<in> set ts. \<bar>createdAt t\<bar> \<le> 2 ^ 53"
  shows "JSON_parse (JSON_stringify ts) = Inr (todos_js ts)
         \<and> as_todos (todos_js ts) = map Some ts
         \<and> (writable ls \<and> readable ls \<longrightarrow>
              (\<exists>ls'. saveStorage ls key ts = Inr ls'
                 \<and> loadStorage ls' key fallback = Inr (todos_js ts)))"
proof -
  have rt: "JSON_parse (JSON_stringify ts) = Inr (todos_js ts)"
    by (rule JSON_parse_stringify [OF assms])
  have "loadStorage (ls\<lparr>items := (items ls)(key \<mapsto> JSON_stringify ts)\<rparr>) key fallback
        = Inr (todos_js ts)" if "readable ls"
    using that by (simp add: loadStorage_cases rt)
  then show ?thesis
    by (simp add: rt as_todos_todos_js saveStorage_def setItem_def try_catch_def)
qed

theorem JSON_round_trip_witness:
  "JSON_parse (JSON_stringify [task_A, task_B]) = Inr (todos_js [task_A, task_B])
   \<and> as_todos (todos_js [task_A, task_B]) = [Some task_A, Some task_B]
   \<and> (\<exists>ls'. saveStorage storage_empty STORAGE_KEY [task_A, task_B] = Inr ls'
         \<and> loadStorage ls' STORAGE_KEY (JArr []) = Inr (todos_js [task_A, task_B]))"
proof -
  have "\<forall>t \<in> set [task_A, task_B]. \<bar>createdAt t\<bar> \<le> 2 ^ 53"
    by (simp add: task_A_def task_B_def)
  from JSON_round_trip [OF this, of storage_empty STORAGE_KEY "JArr []"] show ?thesis
    by (simp add: storage_empty_def)
qed

text \<open>
  The read policy of \<open>loadStorage\<close>, for every content of storage: it never
  raises. It returns the fallback when storage cannot be read, when the key has
  no item, and when the item is not JSON text (the empty text included);
  otherwise it returns the parsed value as it is, whatever its shape. The
  initial values of the two state cells of \<open>useTodos\<close> are that result for the
  list key with the empty list as fallback, and for the filter key with \<open>all\<close>
  as fallback.
\<close>

lemma loadStorage_read_policy:
  "loadStorage ls key fallback =
     Inr (if readable ls
          then (case items ls key of
                  None \<Rightarrow> fallback
                | Some text \<Rightarrow> (case JSON_parse text of Inl e \<Rightarrow> fallback | Inr v \<Rightarrow> v))
          else fallback)
   \<and> useTodos_init ls =
       Inr (if readable ls
            then (case items ls STORAGE_KEY of
                    None \<Rightarrow> JArr []
                  | Some text \<Rightarrow> (case JSON_parse text of Inl e \<Rightarrow> JArr [] | Inr v \<Rightarrow> v))
            else JArr [],
            if readable ls
            then (case items ls STORAGE_FILTER_KEY of
                    None \<Rightarrow> JStr (str ''all'')
                  | Some text \<Rightarrow>
                      (case JSON_parse text of Inl e \<Rightarrow> JStr (str ''all'') | Inr v \<Rightarrow> v))
            else JStr (str ''all''))"
  by (simp add: useTodos_init_def loadStorage_cases DEFAULT_FILTER_def)

lemma parse_oops: "JSON_parse (str ''{oops'') = Inl SyntaxError"
proof -
  have "parse_value (Suc (Suc f)) (str ''{oops'') = Malformed" for f
    by (simp add: parse_value.simps parse_members.simps str_def skip_ws_def is_json_ws_def)
  moreover have "2 * length (str ''{oops'') + 2 = Suc (Suc 10)"
    by (simp add: str_def)
  moreover have "skip_ws (str ''{oops'') = str ''{oops''"
    by (simp add: str_def skip_ws_def is_json_ws_def)
  ultimately show ?thesis
    by (simp only: JSON_parse_def outcome.case)
qed

lemma parse_active: "JSON_parse (0x22 # str ''active'' @ [0x22]) = Inr (JStr (str ''active''))"
proof -
  have "parse_value (Suc f) (0x22 # str ''active'' @ [0x22]) = Parsed (JStr (str ''active''), [])" for f
    by (simp add: parse_value.simps str_def)
  moreover have "2 * length (0x22 # str ''active'' @ [0x22]) + 2 = Suc 17"
    by (simp add: str_def)
  moreover have "skip_ws (0x22 # str ''active'' @ [0x22]) = 0x22 # str ''active'' @ [0x22]"
    by (simp add: skip_ws_def is_json_ws_def)
  moreover have "skip_ws [] = []"
    by (simp add: skip_ws_def)
  ultimately show ?thesis
    by (simp only: JSON_parse_def outcome.case prod.case) simp
qed

lemma loadStorage_read_policy_examples:
  "useTodos_init storage_empty = Inr (JArr [], JStr (str ''all''))
   \<and> useTodos_init storage_corrupt = Inr (JArr [], JStr (str ''active''))
   \<and> useTodos_init (storage_corrupt\<lparr>readable := False\<rparr>) = Inr (JArr [], JStr (str ''all''))"
proof -
  have k: "STORAGE_KEY \<noteq> STORAGE_FILTER_KEY"
    by (simp add: STORAGE_KEY_def STORAGE_FILTER_KEY_def str_def)
  from loadStorage_read_policy [of storage_empty] loadStorage_read_policy [of storage_corrupt]
    loadStorage_read_policy [of "storage_corrupt\<lparr>readable := False\<rparr>"] k
  show ?thesis
    by (simp add: storage_empty_def storage_corrupt_def parse_oops parse_active)
qed

text \<open>
  The first call of \<open>useTodos\<close> as a whole: it returns exactly when the value
  restored for the task list is an array without a \<open>null\<close> element, and raises a
  TypeError otherwise. So it returns whenever storage cannot be read, the list
  key has no item, its item is not JSON text, or its item is the text of such
  an array; the content of the filter key never matters.
\<close>

lemma useTodos_first_call_exact:
  "useTodos_first_call ls =
     (case useTodos_init ls of
        Inl e \<Rightarrow> Inl e
      | Inr (t, f) \<Rightarrow>
          if (\<exists>vs. t = JArr vs \<and> JNull \<notin> set vs) then Inr (t, f) else Inl TypeError)"
  by (auto simp: useTodos_first_call_def filter_raises_def split: sum.splits json.splits)

lemma useTodos_first_call_ok:
  assumes "\<not> readable ls \<or> items ls STORAGE_KEY = None
     \<or> (\<exists>text. items ls STORAGE_KEY = Some text
          \<and> ((\<exists>e. JSON_parse text = Inl e)
               \<or> (\<exists>vs. JSON_parse text = Inr (JArr vs) \<and> JNull \<notin> set vs)))"
  shows "\<exists>t f. useTodos_first_call ls = Inr (t, f)"
  using assms
  by (auto simp: useTodos_first_call_def filter_raises_def useTodos_init_def loadStorage_cases)

lemma useTodos_first_call_raises:
  assumes "useTodos_first_call ls = Inl e"
  shows "e = TypeError \<and> readable ls
     \<and> (\<exists>text v. items ls STORAGE_KEY = Some text \<and> JSON_parse text = Inr v
          \<and> (\<forall>vs. v = JArr vs \<longrightarrow> JNull \<in> set vs))"
  using assms
  by (auto simp: useTodos_first_call_def filter_raises_def useTodos_init_def loadStorage_cases
      split: if_splits option.splits sum.splits json.splits)

text \<open>
  C7: at start-up the store is to initialise without surfacing an error for
  every content of the storage keys, the default standing in for absent or
  corrupt data. The code does not do so for every content: with the JSON text
  \<open>null\<close> under the key of the task list (well-formed JSON, but no task list)
  \<open>loadStorage\<close> restores \<open>null\<close> as the task list instead of the empty list,
  and the first call of \<open>useTodos\<close> raises a TypeError when it computes
  \<open>counts\<close>.
\<close>

theorem useTodos_raises_on_null:
  "useTodos_init storage_null = Inr (JNull, JStr (str ''all''))
   \<and> useTodos_first_call storage_null = Inl TypeError"
proof -
  have "parse_value (Suc f) (str ''null'') = Parsed (JNull, [])" for f
    by (simp add: parse_value.simps str_def)
  moreover have "2 * length (str ''null'') + 2 = Suc 9"
    by (simp add: str_def)
  moreover have "skip_ws (str ''null'') = str ''null''" "skip_ws [] = []"
    by (simp_all add: str_def skip_ws_def is_json_ws_def)
  ultimately have p: "JSON_parse (str ''null'') = Inr JNull"
    by (simp only: JSON_parse_def outcome.case prod.case) simp
  have k: "STORAGE_FILTER_KEY \<noteq> STORAGE_KEY"
    by (simp add: STORAGE_KEY_def STORAGE_FILTER_KEY_def str_def)
  have i: "useTodos_init storage_null = Inr (JNull, JStr (str ''all''))"
    using k by (simp add: useTodos_init_def loadStorage_cases storage_null_def p DEFAULT_FILTER_def)
  then show ?thesis
    by (simp add: useTodos_first_call_def filter_raises_def)
qed

end
